theory Spec2Isabelle
  imports Main
begin

unbundle bit_operations_syntax

section \<open>Image encryption tool: pixel transform and input handling\<close>

text \<open>
  A shallow embedding of \<^verbatim>\<open>Image_Encryption.py\<close>. The function
  \<^verbatim>\<open>transform_image\<close> opens a file, converts it to an RGB buffer, runs two loop
  nests over the buffer and saves it again. The embedding starts at the decoded buffer and
  ends before the save: decoding and encoding belong to the imaging library.
\<close>

subsection \<open>Errors\<close>

text \<open>The exceptions the modelled code can raise.\<close>

datatype error = IndexError | ValueError

subsection \<open>The pixel buffer\<close>

text \<open>
  A pixel read from an RGB buffer is a triple of Python integers. The buffer is addressed as
  \<^verbatim>\<open>pixels[x, y]\<close>, column first; it is held here as a list of rows. The size is read
  once from \<^verbatim>\<open>img.size\<close>.
\<close>

type_synonym pixel = "int \<times> int \<times> int"

record image =
  width :: nat
  height :: nat
  pixels :: "pixel list list"

text \<open>The buffer has \<open>height\<close> rows of \<open>width\<close> pixels each.\<close>

definition shape_ok :: "image \<Rightarrow> bool" where
  "shape_ok img \<longleftrightarrow>
     length (pixels img) = height img \<and> list_all (\<lambda>r. length r = width img) (pixels img)"

definition channel_ok :: "int \<Rightarrow> bool" where
  "channel_ok c \<longleftrightarrow> 0 \<le> c \<and> c \<le> 255"

fun pixel_ok :: "pixel \<Rightarrow> bool" where
  "pixel_ok (r, g, b) \<longleftrightarrow> channel_ok r \<and> channel_ok g \<and> channel_ok b"

definition channels_ok :: "image \<Rightarrow> bool" where
  "channels_ok img \<longleftrightarrow> list_all (list_all pixel_ok) (pixels img)"

text \<open>An RGB image buffer: well shaped, with every channel an 8-bit value.\<close>

definition valid_image :: "image \<Rightarrow> bool" where
  "valid_image img \<longleftrightarrow> shape_ok img \<and> channels_ok img"

definition pixel_count :: "image \<Rightarrow> nat" where
  "pixel_count img = length (concat (pixels img))"

text \<open>
  Indexing the pixel access object: a negative coordinate counts from the far edge, and a
  coordinate outside the image raises \<^verbatim>\<open>IndexError\<close>.
\<close>

definition norm_index :: "nat \<Rightarrow> int \<Rightarrow> error + nat" where
  "norm_index n i =
     (let j = (if i < 0 then int n + i else i)
      in if 0 \<le> j \<and> j < int n then Inr (nat j) else Inl IndexError)"

definition getpixel :: "image \<Rightarrow> int \<Rightarrow> int \<Rightarrow> error + pixel" where
  "getpixel img x y =
     (case norm_index (width img) x of
        Inl e \<Rightarrow> Inl e
      | Inr i \<Rightarrow>
          (case norm_index (height img) y of
             Inl e \<Rightarrow> Inl e
           | Inr j \<Rightarrow> Inr (pixels img ! j ! i)))"

definition putpixel :: "image \<Rightarrow> int \<Rightarrow> int \<Rightarrow> pixel \<Rightarrow> error + image" where
  "putpixel img x y p =
     (case norm_index (width img) x of
        Inl e \<Rightarrow> Inl e
      | Inr i \<Rightarrow>
          (case norm_index (height img) y of
             Inl e \<Rightarrow> Inl e
           | Inr j \<Rightarrow> Inr (img\<lparr>pixels := (pixels img)[j := (pixels img ! j)[i := p]]\<rparr>)))"

subsection \<open>Loops\<close>

text \<open>
  A \<^verbatim>\<open>for\<close> loop over a list of indices whose body may raise: the first exception
  ends the loop.
\<close>

fun for_each :: "'a list \<Rightarrow> ('a \<Rightarrow> 's \<Rightarrow> error + 's) \<Rightarrow> 's \<Rightarrow> error + 's" where
  "for_each [] body s = Inr s"
| "for_each (i # is) body s =
     (case body i s of Inl e \<Rightarrow> Inl e | Inr s' \<Rightarrow> for_each is body s')"

subsection \<open>The transform\<close>

text \<open>The three XOR assignments of the first loop nest, on one pixel.\<close>

fun xor_pixel :: "int \<Rightarrow> pixel \<Rightarrow> pixel" where
  "xor_pixel key (r, g, b) = (r XOR key, g XOR key, b XOR key)"

text \<open>
  The body of the first loop nest: read the pixel at \<open>(x, y)\<close>, XOR each channel with
  the key, write it back. The write stores the three integers as they are; for a key in
  0..255 and channels in 0..255 they are again in 0..255 (shown below), so the buffer's
  narrowing to a byte never alters them.
\<close>

definition xor_body :: "int \<Rightarrow> nat \<Rightarrow> nat \<Rightarrow> image \<Rightarrow> error + image" where
  "xor_body key y x img =
     (case getpixel img (int x) (int y) of
        Inl e \<Rightarrow> Inl e
      | Inr p \<Rightarrow> putpixel img (int x) (int y) (xor_pixel key p))"

text \<open>
  The body of the second loop nest: when \<open>(x + y + key) % 2 == 0\<close>, exchange the pixel at
  \<open>(x, y)\<close> with the one at \<open>(width - 1 - x, y)\<close>.
\<close>

definition swap_body :: "nat \<Rightarrow> int \<Rightarrow> nat \<Rightarrow> nat \<Rightarrow> image \<Rightarrow> error + image" where
  "swap_body w key y x img =
     (if (int x + int y + key) mod 2 = 0 then
        (let x2 = int w - 1 - int x in
         case getpixel img (int x) (int y) of
           Inl e \<Rightarrow> Inl e
         | Inr p1 \<Rightarrow>
             (case getpixel img x2 (int y) of
                Inl e \<Rightarrow> Inl e
              | Inr p2 \<Rightarrow>
                  (case putpixel img (int x) (int y) p2 of
                     Inl e \<Rightarrow> Inl e
                   | Inr img' \<Rightarrow> putpixel img' x2 (int y) p1)))
      else Inr img)"

definition color_transform :: "nat \<Rightarrow> nat \<Rightarrow> int \<Rightarrow> image \<Rightarrow> error + image" where
  "color_transform w h key img =
     for_each [0..<h] (\<lambda>y. for_each [0..<w] (xor_body key y)) img"

definition position_transform :: "nat \<Rightarrow> nat \<Rightarrow> int \<Rightarrow> image \<Rightarrow> error + image" where
  "position_transform w h key img =
     for_each [0..<h] (\<lambda>y. for_each [0..<w div 2] (swap_body w key y)) img"

text \<open>
  \<^verbatim>\<open>transform_image\<close> between loading and saving: the key is reduced modulo 256,
  then the colour loops run, then the position loops.
\<close>

definition transform_image :: "image \<Rightarrow> int \<Rightarrow> error + image" where
  "transform_image img k =
     (let w = width img; h = height img; key = k mod 256 in
      case color_transform w h key img of
        Inl e \<Rightarrow> Inl e
      | Inr img1 \<Rightarrow> position_transform w h key img1)"

subsection \<open>Validation of the form's inputs\<close>

text \<open>
  The string methods and the integer conversion that \<^verbatim>\<open>validate_inputs\<close> calls.
  A string is a Python \<^verbatim>\<open>str\<close> whose code points lie below 256, one character for
  each code point. \<^verbatim>\<open>str.strip()\<close> removes white space at both ends: the ASCII white
  space, the separators 0x1C to 0x1F, and the code points 0x85 and 0xA0.
  \<^verbatim>\<open>str.lstrip(chars)\<close> removes every leading character that occurs in \<open>chars\<close>.
  \<^verbatim>\<open>str.isdigit()\<close> holds of a non-empty string of digits, where the superscripts
  0xB2, 0xB3 and 0xB9 count as digits too.
\<close>

definition py_isspace :: "char \<Rightarrow> bool" where
  "py_isspace c \<longleftrightarrow>
     (of_char c :: nat) \<in> {9, 10, 11, 12, 13, 28, 29, 30, 31, 32, 133, 160}"

definition strip :: "string \<Rightarrow> string" where
  "strip s = rev (dropWhile py_isspace (rev (dropWhile py_isspace s)))"

definition lstrip :: "string \<Rightarrow> string \<Rightarrow> string" where
  "lstrip s chars = dropWhile (\<lambda>c. c \<in> set chars) s"

definition is_decimal :: "char \<Rightarrow> bool" where
  "is_decimal c \<longleftrightarrow> c \<in> set ''0123456789''"

definition is_digit :: "char \<Rightarrow> bool" where
  "is_digit c \<longleftrightarrow> is_decimal c \<or> (of_char c :: nat) \<in> {178, 179, 185}"

definition isdigit :: "string \<Rightarrow> bool" where
  "isdigit s \<longleftrightarrow> s \<noteq> [] \<and> list_all is_digit s"

text \<open>
  \<^verbatim>\<open>int(s)\<close> in base 10. A string that is not pure ASCII is first brought to ASCII:
  code points below 127 stay, white space becomes a blank, and any other code point (none
  below 256 is a decimal digit) becomes a character that no literal contains. Then the
  blanks that C's \<^verbatim>\<open>isspace\<close> knows are skipped at both ends, one sign is allowed, and
  decimal digits follow, where single underscores may stand between digits. A literal of
  more than 4300 digits is refused, as is anything of another form: \<^verbatim>\<open>ValueError\<close>.
\<close>

definition c_isspace :: "char \<Rightarrow> bool" where
  "c_isspace c \<longleftrightarrow> (of_char c :: nat) \<in> {9, 10, 11, 12, 13, 32}"

definition to_ascii :: "string \<Rightarrow> string" where
  "to_ascii s =
     (if list_all (\<lambda>c. (of_char c :: nat) < 128) s then s
      else map (\<lambda>c. if (of_char c :: nat) < 127 then c
                     else if py_isspace c then CHR '' '' else CHR ''?'') s)"

fun digits_tail :: "string \<Rightarrow> bool" where
  "digits_tail [] = True"
| "digits_tail (c # cs) =
     (if is_decimal c then digits_tail cs
      else if c = CHR ''_''
      then (case cs of [] \<Rightarrow> False | d # ds \<Rightarrow> is_decimal d \<and> digits_tail ds)
      else False)"

definition literal_ok :: "string \<Rightarrow> bool" where
  "literal_ok s = (case s of [] \<Rightarrow> False | c # cs \<Rightarrow> is_decimal c \<and> digits_tail cs)"

definition digit_value :: "char \<Rightarrow> int" where
  "digit_value c = int (of_char c) - 48"

definition literal_value :: "string \<Rightarrow> int" where
  "literal_value s = foldl (\<lambda>v c. if c = CHR ''_'' then v else 10 * v + digit_value c) 0 s"

definition max_str_digits :: nat where
  "max_str_digits = 4300"

definition py_int :: "string \<Rightarrow> error + int" where
  "py_int s =
     (let t = rev (dropWhile c_isspace (rev (dropWhile c_isspace (to_ascii s))));
          neg = (t \<noteq> [] \<and> hd t = CHR ''-'');
          body = (if t \<noteq> [] \<and> (hd t = CHR ''-'' \<or> hd t = CHR ''+'') then tl t else t)
      in if literal_ok body \<and> length (filter is_decimal body) \<le> max_str_digits
         then Inr (if neg then - literal_value body else literal_value body)
         else Inl ValueError)"

text \<open>
  \<^verbatim>\<open>validate_inputs\<close>: the two entry fields are read and stripped. Each of the four
  checks shows an error box and returns \<open>(None, None)\<close>, here \<open>Inr None\<close>; otherwise
  the key is converted and returned with the path. \<open>isfile\<close> stands for
  \<^verbatim>\<open>os.path.isfile\<close>. The conversion is not inside any \<^verbatim>\<open>try\<close>, neither here nor
  in the two callers, so its exception leaves the handler: \<open>Inl\<close>.
\<close>

definition validate_inputs ::
  "(string \<Rightarrow> bool) \<Rightarrow> string \<Rightarrow> string \<Rightarrow> error + (string \<times> int) option" where
  "validate_inputs isfile image_path key_value =
     (let path = strip image_path; key_str = strip key_value in
      if path = [] then Inr None
      else if \<not> isfile path then Inr None
      else if key_str = [] then Inr None
      else if \<not> isdigit (lstrip key_str ''-'') then Inr None
      else (case py_int key_str of Inl e \<Rightarrow> Inl e | Inr key \<Rightarrow> Inr (Some (path, key))))"

subsection \<open>The output path\<close>

text \<open>
  \<^verbatim>\<open>os.path.splitext\<close>, after the library's generic implementation: the extension
  starts at the last dot of the last path component, unless that dot belongs to the
  component's leading dots. \<^verbatim>\<open>str.rfind\<close> gives the last index of a character, or -1.
\<close>

fun rfind_from :: "char \<Rightarrow> string \<Rightarrow> int \<Rightarrow> int \<Rightarrow> int" where
  "rfind_from c [] i found = found"
| "rfind_from c (x # xs) i found = rfind_from c xs (i + 1) (if x = c then i else found)"

definition rfind :: "string \<Rightarrow> char \<Rightarrow> int" where
  "rfind p c = rfind_from c p 0 (- 1)"










subsection \<open>The encrypt and decrypt actions\<close>

text \<open>
  The files the handlers see: a path names a picture, other data, or nothing.
  \<^verbatim>\<open>os.path.isfile\<close> holds of the paths that name something.
\<close>

datatype content = Picture image | Other_data







subsection \<open>Vocabulary of the statements\<close>

text \<open>The pixel at column \<open>x\<close> of row \<open>y\<close>, for coordinates inside the image.\<close>

definition px :: "image \<Rightarrow> nat \<Rightarrow> nat \<Rightarrow> pixel" where
  "px img y x = pixels img ! y ! x"

definition dims :: "nat \<Rightarrow> nat \<Rightarrow> image \<Rightarrow> bool" where
  "dims w h img \<longleftrightarrow> width img = w \<and> height img = h \<and> shape_ok img"

definition set_px :: "image \<Rightarrow> nat \<Rightarrow> nat \<Rightarrow> pixel \<Rightarrow> image" where
  "set_px img y x p = img\<lparr>pixels := (pixels img)[y := (pixels img ! y)[x := p]]\<rparr>"

text \<open>The swap test of the second loop nest, and the mirrored column.\<close>

definition swap_cond :: "int \<Rightarrow> nat \<Rightarrow> nat \<Rightarrow> bool" where
  "swap_cond key y x \<longleftrightarrow> (int x + int y + key) mod 2 = 0"

definition mirror :: "nat \<Rightarrow> nat \<Rightarrow> nat" where
  "mirror w x = w - 1 - x"

text \<open>
  Where the pixel at column \<open>i\<close> of row \<open>y\<close> comes from after the first \<open>n\<close> iterations
  of the swap loop over that row.
\<close>

definition swap_src :: "nat \<Rightarrow> int \<Rightarrow> nat \<Rightarrow> nat \<Rightarrow> nat \<Rightarrow> nat" where
  "swap_src w key y n i =
     (if (i < n \<and> swap_cond key y i) \<or> (mirror w i < n \<and> swap_cond key y (mirror w i))
      then mirror w i else i)"

text \<open>
  The column whose pixel ends at column \<open>x\<close> of row \<open>y\<close> once the swap loops are over:
  a function of the width, the key byte and the coordinates alone.
\<close>

definition swap_source :: "nat \<Rightarrow> int \<Rightarrow> nat \<Rightarrow> nat \<Rightarrow> nat" where
  "swap_source w key y x =
     (if (x < w div 2 \<and> swap_cond key y x) \<or>
         (mirror w x < w div 2 \<and> swap_cond key y (mirror w x))
      then mirror w x else x)"





text \<open>Two 3x2 images used to instantiate the theorems.\<close>

definition sample_image :: image where
  "sample_image =
     \<lparr>width = 3, height = 2,
      pixels = [[(10, 20, 30), (40, 50, 60), (70, 80, 90)],
                [(1, 2, 3), (4, 5, 6), (255, 0, 128)]]\<rparr>"

definition other_image :: image where
  "other_image =
     \<lparr>width = 3, height = 2,
      pixels = [[(0, 0, 0), (9, 9, 9), (200, 100, 50)],
                [(11, 12, 13), (14, 15, 16), (17, 18, 19)]]\<rparr>"



section \<open>The loops as statements about every pixel\<close>

lemma norm_index_nat: "i < n \<Longrightarrow> norm_index n (int i) = Inr i"
  by (simp add: norm_index_def)

lemma getpixel_in:
  "dims w h img \<Longrightarrow> x < w \<Longrightarrow> y < h \<Longrightarrow> getpixel img (int x) (int y) = Inr (px img y x)"
  by (simp add: getpixel_def dims_def norm_index_nat px_def)

lemma putpixel_in:
  "dims w h img \<Longrightarrow> x < w \<Longrightarrow> y < h \<Longrightarrow> putpixel img (int x) (int y) p = Inr (set_px img y x p)"
  by (simp add: putpixel_def dims_def norm_index_nat set_px_def)

lemma dims_set_px: "dims w h img \<Longrightarrow> dims w h (set_px img y x p)"
proof (cases "y < length (pixels img)")
  case True
  assume "dims w h img"
  then show ?thesis using True
    by (auto simp add: dims_def set_px_def shape_ok_def list_all_length nth_list_update)
next
  case False
  assume "dims w h img"
  then show ?thesis using False
    by (auto simp add: dims_def set_px_def shape_ok_def list_update_beyond)
qed

lemma px_set_px:
  "dims w h img \<Longrightarrow> y < h \<Longrightarrow> x < w \<Longrightarrow> j < h \<Longrightarrow> i < w \<Longrightarrow>
     px (set_px img y x p) j i = (if j = y \<and> i = x then p else px img j i)"
  by (auto simp add: dims_def set_px_def shape_ok_def list_all_length nth_list_update px_def)

lemma for_each_snoc:
  "for_each (xs @ [x]) body s =
     (case for_each xs body s of Inl e \<Rightarrow> Inl e | Inr s' \<Rightarrow> body x s')"
  by (induction xs arbitrary: s) (auto split: sum.splits)

lemma image_eqI:
  assumes "dims w h a" "dims w h b" "\<And>j i. j < h \<Longrightarrow> i < w \<Longrightarrow> px a j i = px b j i"
  shows "a = b"
proof -
  have "pixels a = pixels b"
  proof (rule nth_equalityI)
    show "length (pixels a) = length (pixels b)"
      using assms(1,2) by (simp add: dims_def shape_ok_def)
  next
    fix j assume "j < length (pixels a)"
    then have j: "j < h" using assms(1) by (simp add: dims_def shape_ok_def)
    have la: "length (pixels a ! j) = w" and lb: "length (pixels b ! j) = w"
      using assms(1,2) j by (auto simp add: dims_def shape_ok_def list_all_length)
    show "pixels a ! j = pixels b ! j"
      by (rule nth_equalityI) (use la lb assms(3) j in \<open>auto simp add: px_def\<close>)
  qed
  then show ?thesis using assms(1,2) by (simp add: dims_def)
qed

lemma xor_body_in:
  assumes "dims w h img" "x < w" "y < h"
  shows "xor_body key y x img = Inr (set_px img y x (xor_pixel key (px img y x)))"
  using assms by (simp add: xor_body_def getpixel_in putpixel_in)

lemma mirror_less: "x < w \<Longrightarrow> mirror w x < w"
  by (simp add: mirror_def)

lemma mirror_mirror: "x < w \<Longrightarrow> mirror w (mirror w x) = x"
  by (simp add: mirror_def)

lemma int_mirror: "x < w \<Longrightarrow> int w - 1 - int x = int (mirror w x)"
  by (simp add: mirror_def)

lemma mirror_half: "x < w div 2 \<Longrightarrow> x < mirror w x \<and> w div 2 \<le> mirror w x"
  by (auto simp add: mirror_def)

lemma swap_body_in:
  assumes "dims w h img" "x < w div 2" "y < h"
  shows "swap_body w key y x img =
     Inr (if swap_cond key y x
          then set_px (set_px img y x (px img y (mirror w x))) y (mirror w x) (px img y x)
          else img)"
proof -
  have x: "x < w" using assms(2) by simp
  then have x2: "mirror w x < w" by (rule mirror_less)
  have d1: "dims w h (set_px img y x (px img y (mirror w x)))"
    using assms(1) by (rule dims_set_px)
  show ?thesis
    unfolding swap_body_def Let_def int_mirror [OF x]
    by (simp add: swap_cond_def getpixel_in [OF assms(1) x assms(3)]
          getpixel_in [OF assms(1) x2 assms(3)] putpixel_in [OF assms(1) x assms(3)]
          putpixel_in [OF d1 x2 assms(3)])
qed

text \<open>The effect of a loop over the columns or rows, as a statement about every pixel.\<close>

lemma xor_row_loop:
  assumes "dims w h img" "y < h" "n \<le> w"
  shows "\<exists>img'. for_each [0..<n] (xor_body key y) img = Inr img' \<and> dims w h img' \<and>
           (\<forall>j<h. \<forall>i<w. px img' j i =
              (if j = y \<and> i < n then xor_pixel key (px img j i) else px img j i))"
  using assms(3)
proof (induction n)
  case 0
  then show ?case using assms(1) by simp
next
  case (Suc n)
  then obtain img1 where l: "for_each [0..<n] (xor_body key y) img = Inr img1"
    and d: "dims w h img1"
    and p: "\<forall>j<h. \<forall>i<w. px img1 j i =
              (if j = y \<and> i < n then xor_pixel key (px img j i) else px img j i)"
    by auto
  have n: "n < w" using Suc.prems by simp
  let ?img2 = "set_px img1 y n (xor_pixel key (px img1 y n))"
  have "for_each [0..<Suc n] (xor_body key y) img = Inr ?img2"
    using l d n assms(2) by (simp add: for_each_snoc xor_body_in)
  moreover have "dims w h ?img2" using d by (rule dims_set_px)
  moreover have "\<forall>j<h. \<forall>i<w. px ?img2 j i =
              (if j = y \<and> i < Suc n then xor_pixel key (px img j i) else px img j i)"
    using p n assms(2) by (auto simp add: px_set_px [OF d] less_Suc_eq)
  ultimately show ?case by blast
qed

lemma swap_src_Suc:
  assumes "n < w div 2" "i < w"
  shows "swap_src w key y (Suc n) i =
     (if swap_cond key y n \<and> (i = n \<or> i = mirror w n) then mirror w i
      else swap_src w key y n i)"
proof -
  have a: "mirror w i = n \<longleftrightarrow> i = mirror w n"
    using assms by (auto simp add: mirror_def)
  have b: "\<not> mirror w n < n" "n \<noteq> mirror w n"
    using assms(1) by (auto simp add: mirror_def)
  show ?thesis
    using a b by (auto simp add: swap_src_def less_Suc_eq)
qed

lemma swap_src_fix:
  assumes "n < w div 2"
  shows "swap_src w key y n n = n" "swap_src w key y n (mirror w n) = mirror w n"
  using assms by (auto simp add: swap_src_def mirror_def)

lemma swap_row_loop:
  assumes "dims w h img" "y < h" "n \<le> w div 2"
  shows "\<exists>img'. for_each [0..<n] (swap_body w key y) img = Inr img' \<and> dims w h img' \<and>
           (\<forall>j<h. \<forall>i<w. px img' j i =
              (if j = y then px img j (swap_src w key y n i) else px img j i))"
  using assms(3)
proof (induction n)
  case 0
  then show ?case using assms(1) by (simp add: swap_src_def)
next
  case (Suc n)
  then obtain img1 where l: "for_each [0..<n] (swap_body w key y) img = Inr img1"
    and d: "dims w h img1"
    and p: "\<And>j i. j < h \<Longrightarrow> i < w \<Longrightarrow> px img1 j i =
              (if j = y then px img j (swap_src w key y n i) else px img j i)"
    by auto
  have n: "n < w div 2" using Suc.prems by simp
  then have nw: "n < w" by simp
  then have n2: "mirror w n < w" by (rule mirror_less)
  have ne: "n \<noteq> mirror w n" using mirror_half [OF n] by simp
  have pn: "px img1 y n = px img y n" and pm: "px img1 y (mirror w n) = px img y (mirror w n)"
    using p [OF assms(2) nw] p [OF assms(2) n2] swap_src_fix [OF n] by simp_all
  let ?img2 = "if swap_cond key y n
          then set_px (set_px img1 y n (px img1 y (mirror w n))) y (mirror w n) (px img1 y n)
          else img1"
  have d1: "dims w h (set_px img1 y n (px img1 y (mirror w n)))" using d by (rule dims_set_px)
  have "for_each [0..<Suc n] (swap_body w key y) img = Inr ?img2"
    using l d n assms(2) by (simp add: for_each_snoc swap_body_in)
  moreover have "dims w h ?img2" using d by (simp add: dims_set_px)
  moreover have "\<forall>j<h. \<forall>i<w. px ?img2 j i =
              (if j = y then px img j (swap_src w key y (Suc n) i) else px img j i)"
  proof (intro allI impI)
    fix j i assume j: "j < h" and i: "i < w"
    have "px ?img2 j i =
            (if swap_cond key y n \<and> j = y \<and> i = mirror w n then px img1 y n
             else if swap_cond key y n \<and> j = y \<and> i = n then px img1 y (mirror w n)
             else px img1 j i)"
      using j i nw n2 assms(2) by (simp add: px_set_px [OF d1] px_set_px [OF d])
    also have "\<dots> = (if j = y then px img j (swap_src w key y (Suc n) i) else px img j i)"
      using p [OF j i] pn pm ne mirror_mirror [OF nw]
      by (auto simp add: swap_src_Suc [OF n i])
    finally show "px ?img2 j i =
              (if j = y then px img j (swap_src w key y (Suc n) i) else px img j i)" .
  qed
  ultimately show ?case by blast
qed

lemma rows_loop:
  assumes step: "\<And>img y. dims w h img \<Longrightarrow> y < h \<Longrightarrow>
            \<exists>img'. body y img = Inr img' \<and> dims w h img' \<and>
              (\<forall>j<h. \<forall>i<w. px img' j i = (if j = y then g (px img j (s j i)) else px img j i))"
    and bound: "\<And>j i. j < h \<Longrightarrow> i < w \<Longrightarrow> s j i < w"
    and d0: "dims w h img" and n: "n \<le> h"
  shows "\<exists>img'. for_each [0..<n] body img = Inr img' \<and> dims w h img' \<and>
           (\<forall>j<h. \<forall>i<w. px img' j i = (if j < n then g (px img j (s j i)) else px img j i))"
  using n
proof (induction n)
  case 0
  then show ?case using d0 by simp
next
  case (Suc n)
  then obtain img1 where l: "for_each [0..<n] body img = Inr img1"
    and d: "dims w h img1"
    and p: "\<And>j i. j < h \<Longrightarrow> i < w \<Longrightarrow>
              px img1 j i = (if j < n then g (px img j (s j i)) else px img j i)"
    by auto
  have nh: "n < h" using Suc.prems by simp
  from step [OF d nh] obtain img2 where b: "body n img1 = Inr img2"
    and d2: "dims w h img2"
    and p2: "\<And>j i. j < h \<Longrightarrow> i < w \<Longrightarrow>
              px img2 j i = (if j = n then g (px img1 j (s j i)) else px img1 j i)"
    by auto
  have "for_each [0..<Suc n] body img = Inr img2"
    using l b by (simp add: for_each_snoc)
  moreover have "\<forall>j<h. \<forall>i<w. px img2 j i =
      (if j < Suc n then g (px img j (s j i)) else px img j i)"
  proof (intro allI impI)
    fix j i assume j: "j < h" and i: "i < w"
    show "px img2 j i = (if j < Suc n then g (px img j (s j i)) else px img j i)"
      using p2 [OF j i] p [OF j i] p [OF j bound [OF j i]]
      by (auto simp add: less_Suc_eq)
  qed
  ultimately show ?case using d2 by blast
qed

lemma color_transform_effect:
  assumes "dims w h img"
  shows "\<exists>img'. color_transform w h key img = Inr img' \<and> dims w h img' \<and>
           (\<forall>j<h. \<forall>i<w. px img' j i = xor_pixel key (px img j i))"
proof -
  have "\<exists>img'. for_each [0..<h] (\<lambda>y. for_each [0..<w] (xor_body key y)) img = Inr img' \<and>
          dims w h img' \<and>
          (\<forall>j<h. \<forall>i<w. px img' j i =
             (if j < h then xor_pixel key (px img j ((\<lambda>j i. i) j i)) else px img j i))"
  proof (rule rows_loop [OF _ _ assms order_refl])
    fix a y assume "dims w h a" "y < h"
    from xor_row_loop [OF this order_refl, of key]
    show "\<exists>img'. for_each [0..<w] (xor_body key y) a = Inr img' \<and> dims w h img' \<and>
            (\<forall>j<h. \<forall>i<w. px img' j i = (if j = y then xor_pixel key (px a j i) else px a j i))"
      by auto
  qed simp
  then show ?thesis by (auto simp add: color_transform_def)
qed

lemma swap_source_src: "swap_source w key y x = swap_src w key y (w div 2) x"
  by (simp add: swap_source_def swap_src_def)

lemma swap_src_less: "i < w \<Longrightarrow> swap_src w key y n i < w"
  by (simp add: swap_src_def mirror_less)

lemma swap_src_involution: "i < w \<Longrightarrow> swap_src w key y n (swap_src w key y n i) = i"
  by (auto simp add: swap_src_def mirror_mirror)

lemma position_transform_effect:
  assumes "dims w h img"
  shows "\<exists>img'. position_transform w h key img = Inr img' \<and> dims w h img' \<and>
           (\<forall>j<h. \<forall>i<w. px img' j i = px img j (swap_source w key j i))"
proof -
  have "\<exists>img'. for_each [0..<h] (\<lambda>y. for_each [0..<w div 2] (swap_body w key y)) img = Inr img' \<and>
          dims w h img' \<and>
          (\<forall>j<h. \<forall>i<w. px img' j i =
             (if j < h then (\<lambda>p. p) (px img j (swap_source w key j i)) else px img j i))"
  proof (rule rows_loop [OF _ _ assms order_refl])
    fix a y assume "dims w h a" "y < h"
    from swap_row_loop [OF this order_refl, of key]
    show "\<exists>img'. for_each [0..<w div 2] (swap_body w key y) a = Inr img' \<and> dims w h img' \<and>
            (\<forall>j<h. \<forall>i<w. px img' j i =
               (if j = y then px a j (swap_source w key j i) else px a j i))"
      by (auto simp add: swap_source_src)
  qed (simp add: swap_source_src swap_src_less)
  then show ?thesis by (auto simp add: position_transform_def)
qed

lemma transform_effect:
  assumes "dims w h img"
  shows "\<exists>img'. transform_image img k = Inr img' \<and> dims w h img' \<and>
           (\<forall>j<h. \<forall>i<w. px img' j i =
              xor_pixel (k mod 256) (px img j (swap_source w (k mod 256) j i)))"
proof -
  from color_transform_effect [OF assms, of "k mod 256"]
  obtain img1 where c: "color_transform w h (k mod 256) img = Inr img1"
    and d1: "dims w h img1"
    and p1: "\<And>j i. j < h \<Longrightarrow> i < w \<Longrightarrow> px img1 j i = xor_pixel (k mod 256) (px img j i)"
    by auto
  from position_transform_effect [OF d1, of "k mod 256"]
  obtain img2 where c2: "position_transform w h (k mod 256) img1 = Inr img2"
    and d2: "dims w h img2"
    and p2: "\<And>j i. j < h \<Longrightarrow> i < w \<Longrightarrow> px img2 j i = px img1 j (swap_source w (k mod 256) j i)"
    by auto
  have wh: "width img = w" "height img = h" using assms by (simp_all add: dims_def)
  have "transform_image img k = Inr img2"
    using c c2 by (simp add: transform_image_def wh)
  moreover have "\<forall>j<h. \<forall>i<w. px img2 j i =
              xor_pixel (k mod 256) (px img j (swap_source w (k mod 256) j i))"
    using p1 p2 by (simp add: swap_source_src swap_src_less)
  ultimately show ?thesis using d2 by blast
qed

lemma xor_pixel_twice: "xor_pixel key (xor_pixel key p) = p"
  by (cases p) (simp add: xor.assoc)

lemma transform_twice:
  assumes "shape_ok img"
  shows "\<exists>img'. transform_image img k = Inr img' \<and> transform_image img' k = Inr img"
proof -
  define w h where "w = width img" and "h = height img"
  have d: "dims w h img" using assms by (simp add: dims_def w_def h_def)
  let ?s = "swap_source w (k mod 256)"
  from transform_effect [OF d, of k]
  obtain img1 where t1: "transform_image img k = Inr img1" and d1: "dims w h img1"
    and p1: "\<And>j i. j < h \<Longrightarrow> i < w \<Longrightarrow> px img1 j i = xor_pixel (k mod 256) (px img j (?s j i))"
    by auto
  from transform_effect [OF d1, of k]
  obtain img2 where t2: "transform_image img1 k = Inr img2" and d2: "dims w h img2"
    and p2: "\<And>j i. j < h \<Longrightarrow> i < w \<Longrightarrow> px img2 j i = xor_pixel (k mod 256) (px img1 j (?s j i))"
    by auto
  have "img2 = img"
  proof (rule image_eqI [OF d2 d])
    fix j i assume j: "j < h" and i: "i < w"
    have si: "?s j i < w" using i by (simp add: swap_source_src swap_src_less)
    show "px img2 j i = px img j i"
      using p2 [OF j i] p1 [OF j si] i
      by (simp add: xor_pixel_twice swap_source_src swap_src_involution)
  qed
  then show ?thesis using t1 t2 by simp
qed

lemma swap_cond_nat: "swap_cond 0 y x \<longleftrightarrow> (x + y) mod 2 = 0"
proof -
  have "(int x + int y + 0) mod 2 = int ((x + y) mod 2)" by (simp add: zmod_int)
  then show ?thesis by (simp add: swap_cond_def)
qed

lemma xor_pixel_zero: "xor_pixel 0 p = p"
  by (cases p) simp

lemma swap_source_low:
  "x < w div 2 \<Longrightarrow> swap_source w key y x = (if swap_cond key y x then mirror w x else x)"
  using mirror_half [of x w] by (auto simp add: swap_source_src swap_src_def)

lemma swap_source_high:
  "x < w div 2 \<Longrightarrow>
     swap_source w key y (mirror w x) = (if swap_cond key y x then x else mirror w x)"
  using mirror_half [of x w] mirror_mirror [of x w]
  by (auto simp add: swap_source_src swap_src_def)

lemma swap_source_middle: "odd w \<Longrightarrow> swap_source w key y (w div 2) = w div 2"
proof -
  assume "odd w"
  then have "mirror w (w div 2) = w div 2" by (auto simp add: mirror_def elim!: oddE)
  then show ?thesis by (simp add: swap_source_src swap_src_def)
qed

lemma shape_ok_dims: "shape_ok img \<Longrightarrow> dims (width img) (height img) img"
  by (simp add: dims_def)

lemma length_concat_rows:
  "list_all (\<lambda>r. length r = w) xss \<Longrightarrow> length (concat xss) = w * length xss"
  by (induction xss) simp_all

lemma pixel_count_dims:
  assumes "dims w h img"
  shows "pixel_count img = w * h"
proof -
  have "list_all (\<lambda>r. length r = w) (pixels img)" and "length (pixels img) = h"
    using assms by (auto simp add: dims_def shape_ok_def)
  then show ?thesis by (simp add: pixel_count_def length_concat_rows)
qed

lemma channel_ok_xor:
  assumes "channel_ok c" "0 \<le> key" "key < 256"
  shows "channel_ok (c XOR key)"
proof -
  have "c XOR key < 2 ^ 8"
    by (rule XOR_upper) (use assms in \<open>simp_all add: channel_ok_def\<close>)
  moreover have "0 \<le> c XOR key" using assms by (simp add: channel_ok_def)
  ultimately show ?thesis by (simp add: channel_ok_def)
qed

lemma pixel_ok_xor: "pixel_ok p \<Longrightarrow> pixel_ok (xor_pixel (k mod 256) p)"
  by (cases p) (simp add: channel_ok_xor)

lemma channels_ok_px:
  assumes "dims w h img"
  shows "channels_ok img \<longleftrightarrow> (\<forall>j<h. \<forall>i<w. pixel_ok (px img j i))"
  using assms
  by (auto simp add: channels_ok_def dims_def shape_ok_def list_all_length px_def)

section \<open>Splitting the extension off a path\<close>

lemma rfind_from_shift:
  "rfind_from c xs i found = (if c \<in> set xs then i + rfind xs c else found)"
proof (induction xs arbitrary: i found)
  case Nil
  then show ?case by simp
next
  case (Cons x xs)
  have a: "rfind_from c (x # xs) i found = rfind_from c xs (i + 1) (if x = c then i else found)"
    by simp
  have b: "rfind (x # xs) c = rfind_from c xs 1 (if x = c then 0 else - 1)"
    by (simp add: rfind_def)
  show ?case
    unfolding a b
    by (simp add: Cons.IH [of "i + 1"] Cons.IH [of 1])
qed

lemma rfind_Nil: "rfind [] c = - 1"
  by (simp add: rfind_def)

lemma rfind_Cons:
  "rfind (x # xs) c = (if c \<in> set xs then 1 + rfind xs c else if x = c then 0 else - 1)"
proof -
  have "rfind (x # xs) c = rfind_from c xs 1 (if x = c then 0 else - 1)"
    by (simp add: rfind_def)
  then show ?thesis by (simp add: rfind_from_shift)
qed




lemma rfind_in: "c \<in> set p \<Longrightarrow> 0 \<le> rfind p c"
  by (induction p) (auto simp add: rfind_Nil rfind_Cons)

lemma rfind_neg: "rfind p c < 0 \<Longrightarrow> c \<notin> set p"
  using rfind_in [of c p] by auto




















section \<open>Properties of the transform\<close>

lemma valid_sample: "valid_image sample_image"
  by (simp add: sample_image_def valid_image_def shape_ok_def channels_ok_def channel_ok_def)

lemma valid_other: "valid_image other_image"
  by (simp add: other_image_def valid_image_def shape_ok_def channels_ok_def channel_ok_def)

lemma size_sample: "width sample_image = 3" "height sample_image = 2"
  by (simp_all add: sample_image_def)

lemma size_other: "width other_image = 3" "height other_image = 2"
  by (simp_all add: other_image_def)

text \<open>
  C1: the transform is an involution. For every RGB image buffer and every integer key, the
  transform returns a buffer, and transforming that buffer again with the same key returns
  the original buffer, pixel for pixel.
\<close>

theorem transform_involution:
  "valid_image I \<Longrightarrow> \<exists>J. transform_image I k = Inr J \<and> transform_image J k = Inr I"
  by (rule transform_twice) (simp add: valid_image_def)

text \<open>C1 at the sample image and key 7.\<close>

theorem transform_involution_witness:
  "valid_image sample_image \<and>
   (\<exists>J. transform_image sample_image 7 = Inr J \<and> transform_image J 7 = Inr sample_image)"
  using valid_sample transform_involution [OF valid_sample, of 7] by simp

text \<open>
  C2: key normalisation. The transform with key \<open>k + 256\<close> and with key \<open>k - 256\<close> gives
  the same result as with key \<open>k\<close>, for every buffer and every integer \<open>k\<close>, negative
  ones included; any two keys with the same residue modulo 256 give the same result.
\<close>

theorem key_normalization:
  "transform_image I (k + 256) = transform_image I k \<and>
   transform_image I (k - 256) = transform_image I k \<and>
   (k' mod 256 = k mod 256 \<longrightarrow> transform_image I k' = transform_image I k)"
  by (simp add: transform_image_def)

text \<open>C2 at the keys -3 and 509, which have the same residue 253.\<close>

theorem key_normalization_witness:
  "(509 :: int) mod 256 = (- 3) mod 256 \<and>
   transform_image sample_image 509 = transform_image sample_image (- 3)"
  using key_normalization [of sample_image "- 3" 509] by simp

text \<open>
  C3: the identity key. With key 0 the transform returns a buffer of the same size in which
  no colour value has changed, and the positions are those of the swap: for every row
  \<open>y\<close> and every column \<open>x\<close> below \<open>W div 2\<close>, the pixels at \<open>x\<close> and \<open>W - 1 - x\<close>
  are exchanged when \<open>(x + y) mod 2 = 0\<close> and stay where they are otherwise; the middle
  column of an odd width stays as well.
\<close>

theorem identity_key:
  assumes "valid_image I"
  shows "\<exists>J. transform_image I 0 = Inr J \<and> width J = width I \<and> height J = height I \<and>
    (\<forall>y<height I. \<forall>x<width I div 2.
       (if (x + y) mod 2 = 0
        then px J y x = px I y (width I - 1 - x) \<and> px J y (width I - 1 - x) = px I y x
        else px J y x = px I y x \<and> px J y (width I - 1 - x) = px I y (width I - 1 - x))) \<and>
    (\<forall>y<height I. odd (width I) \<longrightarrow> px J y (width I div 2) = px I y (width I div 2))"
proof -
  let ?w = "width I" and ?h = "height I"
  have d: "dims ?w ?h I" using assms by (simp add: valid_image_def shape_ok_dims)
  from transform_effect [OF d, of 0]
  obtain J where t: "transform_image I 0 = Inr J" and dj: "dims ?w ?h J"
    and p: "\<And>j i. j < ?h \<Longrightarrow> i < ?w \<Longrightarrow> px J j i = px I j (swap_source ?w 0 j i)"
    by (auto simp add: xor_pixel_zero)
  have "\<forall>y<?h. \<forall>x<?w div 2.
       (if (x + y) mod 2 = 0
        then px J y x = px I y (?w - 1 - x) \<and> px J y (?w - 1 - x) = px I y x
        else px J y x = px I y x \<and> px J y (?w - 1 - x) = px I y (?w - 1 - x))"
  proof (intro allI impI)
    fix y x assume y: "y < ?h" and x: "x < ?w div 2"
    have xw: "x < ?w" using x by simp
    then have mw: "mirror ?w x < ?w" by (rule mirror_less)
    have m: "?w - 1 - x = mirror ?w x" by (simp add: mirror_def)
    show "if (x + y) mod 2 = 0
        then px J y x = px I y (?w - 1 - x) \<and> px J y (?w - 1 - x) = px I y x
        else px J y x = px I y x \<and> px J y (?w - 1 - x) = px I y (?w - 1 - x)"
      unfolding m
      using p [OF y xw] p [OF y mw]
      by (simp add: swap_source_low [OF x] swap_source_high [OF x] swap_cond_nat)
  qed
  moreover have "\<forall>y<?h. odd ?w \<longrightarrow> px J y (?w div 2) = px I y (?w div 2)"
  proof (intro allI impI)
    fix y assume y: "y < ?h" and o: "odd ?w"
    then have "?w div 2 < ?w" by (auto elim!: oddE)
    from p [OF y this] show "px J y (?w div 2) = px I y (?w div 2)"
      by (simp add: swap_source_middle [OF o])
  qed
  ultimately show ?thesis using t dj by (auto simp add: dims_def)
qed

text \<open>
  C3 at the sample image: in row 0 the outer pixels change places, in row 1 they stay, and
  the middle column stays in both.
\<close>

theorem identity_key_witness:
  "valid_image sample_image \<and>
   (\<exists>J. transform_image sample_image 0 = Inr J \<and>
      px J 0 0 = (70, 80, 90) \<and> px J 0 2 = (10, 20, 30) \<and> px J 0 1 = (40, 50, 60) \<and>
      px J 1 0 = (1, 2, 3) \<and> px J 1 2 = (255, 0, 128) \<and> px J 1 1 = (4, 5, 6))"
proof -
  from identity_key [OF valid_sample]
  obtain J where t: "transform_image sample_image 0 = Inr J"
    and a: "\<And>y x. y < 2 \<Longrightarrow> x < 1 \<Longrightarrow>
       (if (x + y) mod 2 = 0
        then px J y x = px sample_image y (3 - 1 - x) \<and> px J y (3 - 1 - x) = px sample_image y x
        else px J y x = px sample_image y x \<and>
             px J y (3 - 1 - x) = px sample_image y (3 - 1 - x))"
    and m: "\<And>y. y < 2 \<Longrightarrow> px J y 1 = px sample_image y 1"
    unfolding size_sample by auto
  have "px J 0 0 = (70, 80, 90) \<and> px J 0 2 = (10, 20, 30)"
    using a [of 0 0] by (simp add: px_def sample_image_def)
  moreover have "px J 1 0 = (1, 2, 3) \<and> px J 1 2 = (255, 0, 128)"
    using a [of 1 0] by (simp add: px_def sample_image_def)
  moreover have "px J 0 1 = (40, 50, 60)" "px J 1 1 = (4, 5, 6)"
    using m [of 0] m [of 1] by (simp_all add: px_def sample_image_def)
  ultimately show ?thesis using t valid_sample by blast
qed

text \<open>
  C4: the midpoint of an odd width. For a buffer of odd width, any row \<open>y\<close> and any key, the
  position loops leave the pixel of the middle column \<open>W div 2\<close> where it is, and after the
  whole transform that position holds the original colour XORed with \<open>k mod 256\<close>.
\<close>

theorem odd_width_midpoint:
  assumes "valid_image I" "odd (width I)" "y < height I"
  shows "(\<exists>J. position_transform (width I) (height I) (k mod 256) I = Inr J \<and>
             px J y (width I div 2) = px I y (width I div 2)) \<and>
         (\<exists>J. transform_image I k = Inr J \<and>
             px J y (width I div 2) = xor_pixel (k mod 256) (px I y (width I div 2)))"
proof -
  let ?w = "width I" and ?h = "height I"
  have d: "dims ?w ?h I" using assms(1) by (simp add: valid_image_def shape_ok_dims)
  have m: "?w div 2 < ?w" using assms(2) by (auto elim!: oddE)
  from position_transform_effect [OF d, of "k mod 256"] assms(3) m
  have "\<exists>J. position_transform ?w ?h (k mod 256) I = Inr J \<and>
             px J y (?w div 2) = px I y (?w div 2)"
    by (auto simp add: swap_source_middle [OF assms(2)])
  moreover from transform_effect [OF d, of k] assms(3) m
  have "\<exists>J. transform_image I k = Inr J \<and>
             px J y (?w div 2) = xor_pixel (k mod 256) (px I y (?w div 2))"
    by (auto simp add: swap_source_middle [OF assms(2)])
  ultimately show ?thesis by simp
qed

text \<open>C4 at the sample image (width 3), row 1 and key 300, whose byte is 44.\<close>

theorem odd_width_midpoint_witness:
  "valid_image sample_image \<and> odd (width sample_image) \<and> 1 < height sample_image \<and>
   (\<exists>J. position_transform 3 2 44 sample_image = Inr J \<and> px J 1 1 = (4, 5, 6)) \<and>
   (\<exists>J. transform_image sample_image 300 = Inr J \<and> px J 1 1 = (40, 41, 42))"
proof -
  have o: "odd (width sample_image)" and h: "1 < height sample_image"
    by (simp_all add: size_sample)
  have "xor_pixel (300 mod 256) (px sample_image 1 1) = (40, 41, 42)"
    by (simp add: px_def sample_image_def)
  moreover have "px sample_image 1 1 = (4, 5, 6)"
    by (simp add: px_def sample_image_def)
  ultimately show ?thesis
    using odd_width_midpoint [OF valid_sample o h, of 300] valid_sample o h
    by (simp add: size_sample)
qed

text \<open>
  C5: shape preservation. The transform returns a buffer with the width, the height and the
  pixel count of its input, again with \<open>height\<close> rows of \<open>width\<close> pixels.
\<close>

theorem shape_preservation:
  assumes "valid_image I"
  shows "\<exists>J. transform_image I k = Inr J \<and> width J = width I \<and> height J = height I \<and>
           shape_ok J \<and> pixel_count J = pixel_count I"
proof -
  have d: "dims (width I) (height I) I" using assms by (simp add: valid_image_def shape_ok_dims)
  from transform_effect [OF d, of k]
  obtain J where t: "transform_image I k = Inr J" and dj: "dims (width I) (height I) J"
    by auto
  have "pixel_count J = pixel_count I"
    by (simp add: pixel_count_dims [OF d] pixel_count_dims [OF dj])
  then show ?thesis using t dj by (auto simp add: dims_def)
qed

text \<open>C5 at the sample image, which has 6 pixels.\<close>

theorem shape_preservation_witness:
  "valid_image sample_image \<and>
   (\<exists>J. transform_image sample_image 77 = Inr J \<and> width J = 3 \<and> height J = 2 \<and>
      shape_ok J \<and> pixel_count J = 6)"
proof -
  have "pixel_count sample_image = 6" by (simp add: pixel_count_def sample_image_def)
  then show ?thesis
    using shape_preservation [OF valid_sample, of 77] valid_sample
    by (simp add: size_sample)
qed

text \<open>
  C6: the 2x1 image with pixels (10,20,30) and (40,50,60) under key 5 becomes
  (15,17,27), (45,55,57): every channel is XORed with 5 and no pair is exchanged, since
  0 + 0 + 5 is odd. Transforming the result again under key 5 gives the original image back.
\<close>

theorem scenario_2x1_key5:
  "transform_image \<lparr>width = 2, height = 1, pixels = [[(10, 20, 30), (40, 50, 60)]]\<rparr> 5
     = Inr \<lparr>width = 2, height = 1, pixels = [[(15, 17, 27), (45, 55, 57)]]\<rparr>
   \<and> transform_image \<lparr>width = 2, height = 1, pixels = [[(15, 17, 27), (45, 55, 57)]]\<rparr> 5
     = Inr \<lparr>width = 2, height = 1, pixels = [[(10, 20, 30), (40, 50, 60)]]\<rparr>"
  by code_simp

text \<open>
  C7: the swap does not look at the data. For two buffers of the same width and height and any
  key, the position loops move the pixels of both along the same map of columns,
  \<open>swap_source\<close>, which is computed from the width, the key byte \<open>k mod 256\<close> and the
  coordinates only; the whole transform does the same and XORs the colours.
\<close>

theorem swap_data_independent:
  assumes "valid_image A" "valid_image B" "width B = width A" "height B = height A"
  shows "(\<exists>A' B'. position_transform (width A) (height A) (k mod 256) A = Inr A' \<and>
            position_transform (width A) (height A) (k mod 256) B = Inr B' \<and>
            (\<forall>y<height A. \<forall>x<width A.
               swap_source (width A) (k mod 256) y x < width A \<and>
               px A' y x = px A y (swap_source (width A) (k mod 256) y x) \<and>
               px B' y x = px B y (swap_source (width A) (k mod 256) y x))) \<and>
         (\<exists>A' B'. transform_image A k = Inr A' \<and> transform_image B k = Inr B' \<and>
            (\<forall>y<height A. \<forall>x<width A.
               px A' y x = xor_pixel (k mod 256) (px A y (swap_source (width A) (k mod 256) y x)) \<and>
               px B' y x = xor_pixel (k mod 256) (px B y (swap_source (width A) (k mod 256) y x))))"
proof -
  let ?w = "width A" and ?h = "height A"
  have da: "dims ?w ?h A" using assms(1) by (simp add: valid_image_def shape_ok_dims)
  have db: "dims ?w ?h B" using assms(2,3,4) by (simp add: valid_image_def dims_def)
  have lt: "\<And>y x. x < ?w \<Longrightarrow> swap_source ?w (k mod 256) y x < ?w"
    by (simp add: swap_source_src swap_src_less)
  from position_transform_effect [OF da, of "k mod 256"]
    position_transform_effect [OF db, of "k mod 256"] lt
  have 1: "\<exists>A' B'. position_transform ?w ?h (k mod 256) A = Inr A' \<and>
            position_transform ?w ?h (k mod 256) B = Inr B' \<and>
            (\<forall>y<?h. \<forall>x<?w.
               swap_source ?w (k mod 256) y x < ?w \<and>
               px A' y x = px A y (swap_source ?w (k mod 256) y x) \<and>
               px B' y x = px B y (swap_source ?w (k mod 256) y x))"
    by (elim exE conjE) (intro exI conjI, assumption, assumption, simp)
  from transform_effect [OF da, of k] transform_effect [OF db, of k]
  have 2: "\<exists>A' B'. transform_image A k = Inr A' \<and> transform_image B k = Inr B' \<and>
            (\<forall>y<?h. \<forall>x<?w.
               px A' y x = xor_pixel (k mod 256) (px A y (swap_source ?w (k mod 256) y x)) \<and>
               px B' y x = xor_pixel (k mod 256) (px B y (swap_source ?w (k mod 256) y x)))"
    by (elim exE conjE) (intro exI conjI, assumption, assumption, simp)
  from 1 2 show ?thesis by (rule conjI)
qed

text \<open>
  C7 at the two sample images and key 6: in both, the pixel that ends at column 0 of row 0
  is the one that was at column 2.
\<close>

theorem swap_data_independent_witness:
  "valid_image sample_image \<and> valid_image other_image \<and>
   width other_image = width sample_image \<and> height other_image = height sample_image \<and>
   swap_source 3 6 0 0 = 2 \<and>
   (\<exists>A' B'. position_transform 3 2 6 sample_image = Inr A' \<and>
      position_transform 3 2 6 other_image = Inr B' \<and>
      px A' 0 0 = px sample_image 0 2 \<and> px B' 0 0 = px other_image 0 2)"
proof -
  have e: "width other_image = width sample_image" "height other_image = height sample_image"
    by (simp_all add: size_sample size_other)
  have s: "swap_source 3 6 0 0 = 2"
    by (simp add: swap_source_def swap_cond_def mirror_def)
  from swap_data_independent [OF valid_sample valid_other e, of 6]
  obtain A' B' where t: "position_transform 3 2 6 sample_image = Inr A'"
      "position_transform 3 2 6 other_image = Inr B'"
    and a: "\<And>y x. y < 2 \<Longrightarrow> x < 3 \<Longrightarrow>
               px A' y x = px sample_image y (swap_source 3 6 y x) \<and>
               px B' y x = px other_image y (swap_source 3 6 y x)"
    unfolding size_sample by auto
  have "px A' 0 0 = px sample_image 0 2 \<and> px B' 0 0 = px other_image 0 2"
    using a [of 0 0] by (simp add: s)
  then show ?thesis using t e s valid_sample valid_other by blast
qed

text \<open>
  C10: the channel range is closed. The transform of a buffer whose channels all lie in
  0..255 returns a buffer whose channels all lie in 0..255, for every integer key: the key is
  reduced to a byte first, and the XOR of two bytes is a byte.
\<close>

theorem channel_range_closure:
  assumes "shape_ok I" "channels_ok I"
  shows "\<exists>J. transform_image I k = Inr J \<and> channels_ok J"
proof -
  let ?w = "width I" and ?h = "height I"
  have d: "dims ?w ?h I" using assms(1) by (rule shape_ok_dims)
  have c: "\<And>j i. j < ?h \<Longrightarrow> i < ?w \<Longrightarrow> pixel_ok (px I j i)"
    using assms(2) channels_ok_px [OF d] by simp
  from transform_effect [OF d, of k]
  obtain J where t: "transform_image I k = Inr J" and dj: "dims ?w ?h J"
    and p: "\<And>j i. j < ?h \<Longrightarrow> i < ?w \<Longrightarrow>
              px J j i = xor_pixel (k mod 256) (px I j (swap_source ?w (k mod 256) j i))"
    by auto
  have "\<forall>j<?h. \<forall>i<?w. pixel_ok (px J j i)"
    using p c by (simp add: pixel_ok_xor swap_source_src swap_src_less)
  then have "channels_ok J" using channels_ok_px [OF dj] by simp
  then show ?thesis using t by blast
qed

text \<open>C10 at the sample image and the negative key -1000.\<close>

theorem channel_range_closure_witness:
  "shape_ok sample_image \<and> channels_ok sample_image \<and>
   (\<exists>J. transform_image sample_image (- 1000) = Inr J \<and> channels_ok J)"
proof -
  have s: "shape_ok sample_image" and c: "channels_ok sample_image"
    using valid_sample by (simp_all add: valid_image_def)
  show ?thesis using s c channel_range_closure [OF s c, of "- 1000"] by simp
qed

section \<open>Properties of the form handlers\<close>

text \<open>
  C8: a key string that is not a number never makes the validation raise; every string that
  passes the digit check is converted by \<^verbatim>\<open>int\<close>. The code does not achieve this:
  \<^verbatim>\<open>lstrip("-")\<close> removes every leading minus sign, so the key \<open>--5\<close> passes the
  digit check, and \<^verbatim>\<open>int("--5")\<close> raises \<^verbatim>\<open>ValueError\<close> outside any handler.
\<close>

theorem validate_inputs_double_minus:
  "isdigit (lstrip ''--5'' ''-'') \<and>
   py_int ''--5'' = Inl ValueError \<and>
   validate_inputs (\<lambda>p. True) ''photo.png'' ''--5'' = Inl ValueError"
  by code_simp





end
